theory Spec2Isabelle
  imports Main
begin

section \<open>Event wiring extraction from scene files (ExampleScenes/parse\_events.py)\<close>

text \<open>
  The function \<open>parse_scene\<close> of the source reads a scene file into the list of its lines
  (\<open>readlines\<close>, so every line but possibly the last ends in a newline) and scans that
  list twice. The model starts from the list of lines. A line is a \<open>string\<close>; the
  character classes of the regular expressions and of \<open>strip\<close> are the ASCII ones.
\<close>

subsection \<open>String operations of the source\<close>

text \<open>\<open>s.startswith(p)\<close>\<close>

fun startswith :: "string \<Rightarrow> string \<Rightarrow> bool" where
  "startswith s [] = True"
| "startswith [] (p # ps) = False"
| "startswith (c # cs) (p # ps) = (c = p \<and> startswith cs ps)"

text \<open>\<open>sub in s\<close>\<close>

fun contains :: "string \<Rightarrow> string \<Rightarrow> bool" where
  "contains sub [] = (sub = [])"
| "contains sub (c # cs) = (startswith (c # cs) sub \<or> contains sub cs)"

text \<open>
  \<open>s.split(sep)\<close> for a non-empty separator: the pieces between the occurrences of
  \<open>sep\<close>, found from the left and not overlapping. \<open>piece\<close> is the piece read so far.
\<close>

function split_from :: "string \<Rightarrow> string \<Rightarrow> string \<Rightarrow> string list" where
  "split_from sep piece s =
     (if s = [] then [piece]
      else if sep \<noteq> [] \<and> startswith s sep
           then piece # split_from sep [] (drop (length sep) s)
           else split_from sep (piece @ [hd s]) (tl s))"
  by pat_completeness auto
termination
  by (relation "measure (\<lambda>(sep, piece, s). length s)") auto

declare split_from.simps [simp del]

definition py_split :: "string \<Rightarrow> string \<Rightarrow> string list" where
  "py_split sep s = split_from sep [] s"

definition is_space :: "char \<Rightarrow> bool" where
  "is_space c = (c \<in> set [CHR 0x09, CHR 0x0A, CHR 0x0B, CHR 0x0C, CHR 0x0D,
                           CHR 0x1C, CHR 0x1D, CHR 0x1E, CHR 0x1F, CHR 0x20])"

definition is_digit :: "char \<Rightarrow> bool" where
  "is_digit c = (c \<in> set ''0123456789'')"

definition is_letter :: "char \<Rightarrow> bool" where
  "is_letter c = (c \<in> set ''abcdefghijklmnopqrstuvwxyzABCDEFGHIJKLMNOPQRSTUVWXYZ'')"

definition is_word :: "char \<Rightarrow> bool" where
  "is_word c = (is_letter c \<or> is_digit c \<or> c = CHR ''_'')"

text \<open>\<open>s.strip()\<close> and \<open>s.rstrip(':')\<close>\<close>

definition strip :: "string \<Rightarrow> string" where
  "strip s = rev (dropWhile is_space (rev (dropWhile is_space s)))"

definition rstrip_colon :: "string \<Rightarrow> string" where
  "rstrip_colon s = rev (dropWhile (\<lambda>c. c = CHR '':'') (rev s))"

text \<open>
  \<open>re.match(pre + r'(\d+)', line)\<close> for a literal \<open>pre\<close>: the line starts with \<open>pre\<close>
  followed by at least one digit; the group is the longest run of digits there.
\<close>

definition match_digits :: "string \<Rightarrow> string \<Rightarrow> string option" where
  "match_digits pre line =
     (if startswith line pre
      then (let ds = takeWhile is_digit (drop (length pre) line)
            in if ds = [] then None else Some ds)
      else None)"

text \<open>\<open>re.search(r'fileID: (\d+)', line)\<close>: the leftmost position where the match succeeds.\<close>

fun search_fileID :: "string \<Rightarrow> string option" where
  "search_fileID [] = None"
| "search_fileID (c # cs) =
     (case match_digits ''fileID: '' (c # cs) of
        Some ds \<Rightarrow> Some ds
      | None \<Rightarrow> search_fileID cs)"

text \<open>\<open>re.match(r'^  [a-zA-Z]', line)\<close>\<close>

fun match_indented_letter :: "string \<Rightarrow> bool" where
  "match_indented_letter (a # b # c # rest) = (a = CHR '' '' \<and> b = CHR '' '' \<and> is_letter c)"
| "match_indented_letter s = False"

text \<open>
  \<open>re.match(r'  \w+:$', line)\<close>: two blanks, a non-empty run of word characters, a colon,
  and then the end of the line or its final newline.
\<close>

definition match_event :: "string \<Rightarrow> bool" where
  "match_event line =
     (startswith line ''  '' \<and>
      (let rest = drop 2 line
       in takeWhile is_word rest \<noteq> [] \<and>
          (dropWhile is_word rest = '':'' \<or> dropWhile is_word rest = '':\<newline>'')))"

subsection \<open>Data model\<close>

text \<open>
  The two dictionaries of string keys the source builds: \<open>call_data\<close>, whose key
  \<open>event\<close> is always set and whose other keys may be absent (\<open>method_name\<close> is the key \<open>method\<close>), and \<open>comp_data\<close>.
  \<open>gameobjects\<close> is the dictionary from object ids to names.
\<close>

record call_data =
  event :: string
  target_name :: "string option"
  target_type :: "string option"
  method_name :: "string option"
  arg :: "string option"

record comp_data =
  comp_id :: string
  events :: "call_data list"
  gameobject :: "string option"
  comp_type :: "string option"

type_synonym gameobjects = "string \<rightharpoonup> string"

text \<open>\<open>gameobjects.get(i, f'Unknown-{i}')\<close>\<close>

definition resolve :: "gameobjects \<Rightarrow> string \<Rightarrow> string" where
  "resolve gos i = (case gos i of Some name \<Rightarrow> name | None \<Rightarrow> ''Unknown-'' @ i)"

subsection \<open>First pass: object id to name\<close>

text \<open>The truth value of \<open>current_id\<close>: neither \<open>None\<close> nor the empty string.\<close>

fun truthy :: "string option \<Rightarrow> bool" where
  "truthy None = False"
| "truthy (Some s) = (s \<noteq> [])"

definition object_id :: "string \<Rightarrow> string option" where
  "object_id line = match_digits ''--- !u!1 &'' line"

definition name_of :: "string \<Rightarrow> string" where
  "name_of line = strip (py_split ''m_Name:'' line ! 1)"

fun id_step :: "string \<Rightarrow> gameobjects \<times> string option \<Rightarrow> gameobjects \<times> string option" where
  "id_step line (gos, current_id) =
     (case object_id line of
        Some i \<Rightarrow> (gos, Some i)
      | None \<Rightarrow>
          if truthy current_id \<and> contains ''m_Name:'' line
          then (gos(the current_id \<mapsto> name_of line), None)
          else (gos, current_id))"

fun first_pass :: "string list \<Rightarrow> gameobjects \<times> string option \<Rightarrow> gameobjects \<times> string option" where
  "first_pass [] st = st"
| "first_pass (line # rest) st = first_pass rest (id_step line st)"

definition build_gameobjects :: "string list \<Rightarrow> gameobjects" where
  "build_gameobjects lines = fst (first_pass lines (Map.empty, None))"

subsection \<open>Second pass: one behaviour block\<close>

text \<open>
  Lines 38 to 45: the owner reference, searched in the 20 lines from the header.
  \<open>j\<close> is the cursor; the loop stops at the first line holding the field.
\<close>

function find_gameobject :: "string list \<Rightarrow> gameobjects \<Rightarrow> nat \<Rightarrow> nat \<Rightarrow> comp_data \<Rightarrow> comp_data" where
  "find_gameobject lines gos i j cd =
     (if j < min (i + 20) (length lines)
      then if contains ''m_GameObject: {fileID:'' (lines ! j)
           then (case search_fileID (lines ! j) of
                   Some go_id \<Rightarrow> cd\<lparr>gameobject := Some (resolve gos go_id)\<rparr>
                 | None \<Rightarrow> cd)
           else find_gameobject lines gos i (j + 1) cd
      else cd)"
  by pat_completeness auto
termination
  by (relation "measure (\<lambda>(lines, gos, i, j, cd). min (i + 20) (length lines) - j)") auto

declare find_gameobject.simps [simp del]

text \<open>
  Lines 48 to 59 search the script reference and do nothing with it (\<open>pass\<close>): the loop
  assigns only the cursors \<open>j\<close> and \<open>k\<close>, which are set again before their next use, and
  it reads \<open>lines\<close> below \<open>len(lines)\<close> only. It has no counterpart here.

  Lines 62 to 71: the class name, searched in the 50 lines from the header.
\<close>

definition type_candidate :: "string \<Rightarrow> bool" where
  "type_candidate line =
     (match_indented_letter line \<and> \<not> contains '':'' line \<and> \<not> startswith (strip line) ''m_'')"

function find_type :: "string list \<Rightarrow> nat \<Rightarrow> nat \<Rightarrow> string option" where
  "find_type lines i j =
     (if j < min (i + 50) (length lines)
      then if type_candidate (lines ! j)
           then (let potential_type = strip (lines ! j)
                 in if potential_type \<noteq> [] \<and> \<not> startswith potential_type ''-''
                    then Some potential_type
                    else find_type lines i (j + 1))
           else find_type lines i (j + 1)
      else None)"
  by pat_completeness auto
termination
  by (relation "measure (\<lambda>(lines, i, j). min (i + 50) (length lines) - j)") auto

declare find_type.simps [simp del]

text \<open>Lines 73 and 74: \<open>if comp_type: comp_data['type'] = comp_type\<close>\<close>

definition set_type :: "string option \<Rightarrow> comp_data \<Rightarrow> comp_data" where
  "set_type t cd = (if truthy t then cd\<lparr>comp_type := t\<rparr> else cd)"

subsection \<open>Second pass: one call record\<close>

definition field_value :: "string \<Rightarrow> string" where
  "field_value line = strip (py_split '':'' line ! 1)"

text \<open>Lines 117 to 129: what one line of the argument window does to the call.\<close>

definition arg_step :: "string \<Rightarrow> call_data \<Rightarrow> call_data" where
  "arg_step line call =
     (if contains ''m_IntArgument:'' line
      then call\<lparr>arg := Some (''int('' @ field_value line @ '')'')\<rparr>
      else if contains ''m_FloatArgument:'' line \<and> field_value line \<noteq> ''0''
      then call\<lparr>arg := Some (''float('' @ field_value line @ '')'')\<rparr>
      else if contains ''m_StringArgument:'' line
      then (if field_value line \<noteq> []
            then call\<lparr>arg := Some ([CHR 0x22] @ field_value line @ [CHR 0x22])\<rparr>
            else call)
      else if contains ''m_BoolArgument:'' line
      then call\<lparr>arg := Some (field_value line)\<rparr>
      else call)"

text \<open>Lines 115 to 130: the argument window, 10 lines from the argument container \<open>m\<close>.\<close>

function scan_args :: "string list \<Rightarrow> nat \<Rightarrow> nat \<Rightarrow> call_data \<Rightarrow> call_data" where
  "scan_args lines m arg_line call =
     (if arg_line < min (m + 10) (length lines)
      then scan_args lines m (arg_line + 1) (arg_step (lines ! arg_line) call)
      else call)"
  by pat_completeness auto
termination
  by (relation "measure (\<lambda>(lines, m, arg_line, call). min (m + 10) (length lines) - arg_line)") auto

declare scan_args.simps [simp del]

text \<open>Lines 107 to 130: what line \<open>m\<close> of the method lookahead does to the call.\<close>

definition method_step :: "string list \<Rightarrow> nat \<Rightarrow> call_data \<Rightarrow> call_data" where
  "method_step lines m call =
     (if contains ''m_TargetAssemblyTypeName:'' (lines ! m)
      then (let type_str = strip (py_split ''m_TargetAssemblyTypeName:'' (lines ! m) ! 1)
            in call\<lparr>target_type := Some (py_split '','' type_str ! 0)\<rparr>)
      else if contains ''m_MethodName:'' (lines ! m)
      then call\<lparr>method_name := Some (strip (py_split ''m_MethodName:'' (lines ! m) ! 1))\<rparr>
      else if contains ''m_Arguments:'' (lines ! m)
      then scan_args lines m m call
      else call)"

text \<open>
  Lines 105 to 131: the method lookahead of the call record at \<open>k\<close>. It returns the call
  and the final cursor \<open>m\<close>.
\<close>

function lookahead :: "string list \<Rightarrow> nat \<Rightarrow> nat \<Rightarrow> call_data \<Rightarrow> call_data \<times> nat" where
  "lookahead lines k m call =
     (if m < min (k + 10) (length lines) \<and> \<not> startswith (lines ! m) ''      -''
      then lookahead lines k (m + 1) (method_step lines m call)
      else (call, m))"
  by pat_completeness auto
termination
  by (relation "measure (\<lambda>(lines, k, m, call). min (k + 10) (length lines) - m)") auto

declare lookahead.simps [simp del]

text \<open>Lines 96 to 102: the new call and its target.\<close>

definition new_call :: "string \<Rightarrow> call_data" where
  "new_call event_name =
     \<lparr>event = event_name, target_name = None, target_type = None, method_name = None, arg = None\<rparr>"

definition extract_target :: "gameobjects \<Rightarrow> string \<Rightarrow> call_data \<Rightarrow> call_data" where
  "extract_target gos line call =
     (if contains ''m_Target: {fileID:'' line
      then (case search_fileID line of
              Some target_id \<Rightarrow> call\<lparr>target_name := Some (resolve gos target_id)\<rparr>
            | None \<Rightarrow> call)
      else call)"

text \<open>Lines 133 and 134: the call is appended if it has the key \<open>method\<close>.\<close>

definition append_call :: "call_data \<Rightarrow> comp_data \<Rightarrow> comp_data" where
  "append_call call cd = (if method_name call \<noteq> None then cd\<lparr>events := events cd @ [call]\<rparr> else cd)"

text \<open>
  Lines 96 to 136, the body of the loop over the call records: the component after the call
  record at \<open>k\<close>, and the next value of \<open>k\<close> (line 136, \<open>k = m\<close>).
\<close>

definition call_record :: "string list \<Rightarrow> gameobjects \<Rightarrow> string \<Rightarrow> nat \<Rightarrow> comp_data \<Rightarrow> comp_data \<times> nat" where
  "call_record lines gos event_name k cd =
     (case lookahead lines k k (extract_target gos (lines ! k) (new_call event_name)) of
        (call, m) \<Rightarrow> (append_call call cd, m))"

text \<open>
  Lines 94 to 136: the loop over the call records. Nothing in the source bounds the number
  of its rounds, so the model is a partial function: \<open>None\<close> is the loop that never ends.
\<close>

partial_function (option) parse_calls :: "string list \<Rightarrow> gameobjects \<Rightarrow> string \<Rightarrow> nat \<Rightarrow> comp_data \<Rightarrow> comp_data option" where
  "parse_calls lines gos event_name k cd =
     (if k < length lines \<and> startswith (lines ! k) ''      -''
      then (case call_record lines gos event_name k cd of
              (cd', m) \<Rightarrow> parse_calls lines gos event_name m cd')
      else Some cd)"

subsection \<open>Second pass: the events of a block, and the scan of the blocks\<close>

text \<open>Lines 86 to 136: the line \<open>j\<close> of a block, as the declaration of an event or not.\<close>

definition event_calls :: "string list \<Rightarrow> gameobjects \<Rightarrow> nat \<Rightarrow> comp_data \<Rightarrow> comp_data option" where
  "event_calls lines gos j cd =
     (if match_event (lines ! j)
      then (let event_name = rstrip_colon (strip (lines ! j))
            in if j + 2 < length lines \<and> contains ''m_PersistentCalls:'' (lines ! (j + 1))
               then if contains ''m_Calls:'' (lines ! (j + 2))
                    then parse_calls lines gos event_name (j + 3) cd
                    else Some cd
               else Some cd)
      else Some cd)"

text \<open>Lines 77 to 138: the lines of the block from its header \<open>i\<close> to the next \<open>---\<close> line.\<close>

function find_events :: "string list \<Rightarrow> gameobjects \<Rightarrow> nat \<Rightarrow> nat \<Rightarrow> comp_data \<Rightarrow> comp_data option" where
  "find_events lines gos i j cd =
     (if j < length lines
      then if j > i \<and> startswith (lines ! j) ''---''
           then Some cd
           else (case event_calls lines gos j cd of
                   None \<Rightarrow> None
                 | Some cd' \<Rightarrow> find_events lines gos i (j + 1) cd')
      else Some cd)"
  by pat_completeness auto
termination
  by (relation "measure (\<lambda>(lines, gos, i, j, cd). length lines - j)") auto

declare find_events.simps [simp del]

text \<open>Lines 34 to 138: the component of the block whose header is line \<open>i\<close>.\<close>

definition parse_component :: "string list \<Rightarrow> gameobjects \<Rightarrow> nat \<Rightarrow> string \<Rightarrow> comp_data option" where
  "parse_component lines gos i cid =
     find_events lines gos i i
       (set_type (find_type lines i i)
          (find_gameobject lines gos i i
             \<lparr>comp_id = cid, events = [], gameobject = None, comp_type = None\<rparr>))"

text \<open>Lines 140 and 141: a component is kept if it has an event.\<close>

definition retain :: "comp_data list \<Rightarrow> comp_data \<Rightarrow> comp_data list" where
  "retain components cd = (if events cd \<noteq> [] then components @ [cd] else components)"

text \<open>Lines 29 to 143: the scan of all lines for the headers of behaviour blocks.\<close>

function scan_components :: "string list \<Rightarrow> gameobjects \<Rightarrow> nat \<Rightarrow> comp_data list \<Rightarrow> comp_data list option" where
  "scan_components lines gos i components =
     (if i < length lines
      then (case match_digits ''--- !u!114 &'' (lines ! i) of
              Some cid \<Rightarrow>
                (case parse_component lines gos i cid of
                   None \<Rightarrow> None
                 | Some cd \<Rightarrow> scan_components lines gos (i + 1) (retain components cd))
            | None \<Rightarrow> scan_components lines gos (i + 1) components)
      else Some components)"
  by pat_completeness auto
termination
  by (relation "measure (\<lambda>(lines, gos, i, components). length lines - i)") auto

declare scan_components.simps [simp del]

text \<open>\<open>parse_scene\<close> on the lines of the file; \<open>None\<close> when it does not return.\<close>

definition parse_scene :: "string list \<Rightarrow> comp_data list option" where
  "parse_scene lines = scan_components lines (build_gameobjects lines) 0 []"

subsection \<open>The identifier mapping, as the specification words it\<close>

text \<open>
  The name field that follows a header: the first line with a name field before the next
  object header, if there is one.
\<close>

fun pending_name :: "string list \<Rightarrow> string option" where
  "pending_name [] = None"
| "pending_name (line # rest) =
     (if object_id line \<noteq> None then None
      else if contains ''m_Name:'' line then Some (name_of line)
      else pending_name rest)"

text \<open>The object headers that are followed by a name field, with that name, in file order.\<close>

fun named_headers :: "string list \<Rightarrow> (string \<times> string) list" where
  "named_headers [] = []"
| "named_headers (line # rest) =
     (case object_id line of
        None \<Rightarrow> named_headers rest
      | Some i \<Rightarrow>
          (case pending_name rest of
             None \<Rightarrow> named_headers rest
           | Some name \<Rightarrow> (i, name) # named_headers rest))"

text \<open>The ids of all object headers, and: each header is followed by a name field.\<close>

fun object_ids :: "string list \<Rightarrow> string list" where
  "object_ids [] = []"
| "object_ids (line # rest) =
     (case object_id line of None \<Rightarrow> object_ids rest | Some i \<Rightarrow> i # object_ids rest)"

fun each_header_named :: "string list \<Rightarrow> bool" where
  "each_header_named [] = True"
| "each_header_named (line # rest) =
     ((object_id line = None \<or> pending_name rest \<noteq> None) \<and> each_header_named rest)"

text \<open>The mapping once the pending id \<open>cur\<close> has met its name in \<open>rest\<close>.\<close>

definition settle :: "gameobjects \<Rightarrow> string option \<Rightarrow> string list \<Rightarrow> gameobjects" where
  "settle gos cur rest =
     (case pending_name rest of
        Some name \<Rightarrow> if truthy cur then gos(the cur \<mapsto> name) else gos
      | None \<Rightarrow> gos)"

subsection \<open>The argument window\<close>

text \<open>
  The lines the argument scan reads from the container line \<open>m\<close>: ten lines, or those
  left in the input.
\<close>

definition arg_window :: "string list \<Rightarrow> nat \<Rightarrow> string list" where
  "arg_window lines m = take 10 (drop m lines)"

text \<open>A line with one of the four argument fields.\<close>

definition arg_field :: "string \<Rightarrow> bool" where
  "arg_field line =
     (contains ''m_IntArgument:'' line \<or> contains ''m_FloatArgument:'' line \<or>
      contains ''m_StringArgument:'' line \<or> contains ''m_BoolArgument:'' line)"

text \<open>
  The argument a line is accepted with: what \<open>arg_step\<close> writes into a call without an
  argument. The accepted arguments of a window, in file order.
\<close>

definition accepted :: "string \<Rightarrow> string option" where
  "accepted line = arg (arg_step line (new_call []))"

definition accepted_args :: "string list \<Rightarrow> string list" where
  "accepted_args xs = map the (filter (\<lambda>a. a \<noteq> None) (map accepted xs))"

subsection \<open>The region of a block\<close>

text \<open>
  Line \<open>j\<close> declares an event whose list of calls has a first item: the test of lines 86
  to 94.
\<close>

definition calls_at :: "string list \<Rightarrow> nat \<Rightarrow> bool" where
  "calls_at lines j =
     (match_event (lines ! j) \<and> j + 2 < length lines \<and>
      contains ''m_PersistentCalls:'' (lines ! (j + 1)) \<and>
      contains ''m_Calls:'' (lines ! (j + 2)) \<and>
      j + 3 < length lines \<and> startswith (lines ! (j + 3)) ''      -'')"

text \<open>
  \<open>e\<close> ends the block whose header is line \<open>i\<close>: a later line that starts with \<open>---\<close>, or
  the end of the input. The region of the block: its header and the lines up to the next
  line that starts with \<open>---\<close>.
\<close>

definition block_end :: "string list \<Rightarrow> nat \<Rightarrow> nat \<Rightarrow> bool" where
  "block_end lines i e =
     (i < e \<and> (e = length lines \<or> (e < length lines \<and> startswith (lines ! e) ''---'')))"

definition block_region :: "string list \<Rightarrow> nat \<Rightarrow> string list" where
  "block_region lines i =
     lines ! i # takeWhile (\<lambda>l. \<not> startswith l ''---'') (drop (i + 1) lines)"

subsection \<open>Inputs\<close>

text \<open>
  A behaviour block with one event and one call record, as the scene format writes it:
  the list item is at the indentation of the calls list, six blanks and a dash.
\<close>

definition one_call_scene :: "string list" where
  "one_call_scene =
     [''--- !u!114 &200\<newline>'',
      ''  onOpen:\<newline>'',
      ''    m_PersistentCalls:\<newline>'',
      ''      m_Calls:\<newline>'',
      ''      - m_Target: {fileID: 100}\<newline>'']"

text \<open>The object \<open>Door\<close> and a behaviour that calls its method \<open>Open\<close> on the event \<open>onOpen\<close>.\<close>

definition door_scene :: "string list" where
  "door_scene =
     [''--- !u!1 &100\<newline>'',
      ''GameObject:\<newline>'',
      ''  m_Name: Door\<newline>'',
      ''--- !u!114 &200\<newline>'',
      ''MonoBehaviour:\<newline>'',
      ''  m_GameObject: {fileID: 100}\<newline>'',
      ''  onOpen:\<newline>'',
      ''    m_PersistentCalls:\<newline>'',
      ''      m_Calls:\<newline>'',
      ''      - m_Target: {fileID: 100}\<newline>'',
      ''        m_TargetAssemblyTypeName: Door, Assembly-CSharp\<newline>'',
      ''        m_MethodName: Open\<newline>'',
      ''        m_Arguments:\<newline>'',
      ''          m_BoolArgument: 1\<newline>'',
      ''        m_CallState: 2\<newline>'']"

text \<open>A behaviour block without events, whose owner is no object of the file.\<close>

definition plain_scene :: "string list" where
  "plain_scene =
     [''--- !u!114 &300\<newline>'',
      ''MonoBehaviour:\<newline>'',
      ''  m_GameObject: {fileID: 100}\<newline>'',
      ''  m_Enabled: 1\<newline>'']"

text \<open>A component with one call.\<close>

definition kept :: comp_data where
  "kept = \<lparr>comp_id = ''200'',
            events = [(new_call ''onOpen'')\<lparr>method_name := Some ''Open''\<rparr>],
            gameobject = Some ''Door'', comp_type = None\<rparr>"

text \<open>A call record without a method field.\<close>

definition target_only :: "string list" where
  "target_only =
     [''      - m_Target: {fileID: 100}\<newline>'',
      ''        m_TargetAssemblyTypeName: Door, Assembly-CSharp\<newline>'',
      ''        m_CallState: 2\<newline>'']"

text \<open>Two objects, and one object whose header comes twice.\<close>

definition two_objects :: "string list" where
  "two_objects =
     [''--- !u!1 &100\<newline>'',
      ''GameObject:\<newline>'',
      ''  m_Name: Door\<newline>'',
      ''--- !u!4 &150\<newline>'',
      ''Transform:\<newline>'',
      ''--- !u!1 &101\<newline>'',
      ''GameObject:\<newline>'',
      ''  m_Name: Key\<newline>'']"

definition renamed_object :: "string list" where
  "renamed_object =
     [''--- !u!1 &100\<newline>'',
      ''  m_Name: Door\<newline>'',
      ''--- !u!1 &100\<newline>'',
      ''  m_Name: Gate\<newline>'']"

text \<open>A call with a float argument, and argument windows as the scene format writes them.\<close>

definition float_scene :: "string list" where
  "float_scene =
     [''--- !u!114 &200\<newline>'',
      ''MonoBehaviour:\<newline>'',
      ''  m_GameObject: {fileID: 100}\<newline>'',
      ''  onTick:\<newline>'',
      ''    m_PersistentCalls:\<newline>'',
      ''      m_Calls:\<newline>'',
      ''      - m_Target: {fileID: 100}\<newline>'',
      ''        m_MethodName: SetSpeed\<newline>'',
      ''        m_Arguments:\<newline>'',
      ''          m_FloatArgument: 2.5\<newline>'',
      ''        m_CallState: 2\<newline>'']"

definition int_args :: "string list" where
  "int_args =
     [''        m_Arguments:\<newline>'',
      ''          m_IntArgument: 0\<newline>'',
      ''        m_CallState: 2\<newline>'']"

definition bool_args :: "string list" where
  "bool_args =
     [''        m_Arguments:\<newline>'',
      ''          m_BoolArgument: 0\<newline>'',
      ''        m_CallState: 2\<newline>'']"

definition string_args :: "string list" where
  "string_args =
     [''        m_Arguments:\<newline>'',
      ''          m_StringArgument: red\<newline>'',
      ''        m_CallState: 2\<newline>'']"

definition empty_string_args :: "string list" where
  "empty_string_args =
     [''        m_Arguments:\<newline>'',
      ''          m_StringArgument: \<newline>'',
      ''        m_CallState: 2\<newline>'']"

definition all_args :: "string list" where
  "all_args =
     [''        m_Arguments:\<newline>'',
      ''          m_ObjectArgument: {fileID: 0}\<newline>'',
      ''          m_ObjectArgumentAssemblyTypeName: UnityEngine.Object, UnityEngine\<newline>'',
      ''          m_IntArgument: 5\<newline>'',
      ''          m_FloatArgument: 2.5\<newline>'',
      ''          m_StringArgument: red\<newline>'',
      ''          m_BoolArgument: 1\<newline>'',
      ''        m_CallState: 2\<newline>'']"

text \<open>
  Pairs of inputs with the same region for the block 200: the next block differs, or the
  name of the owner does. Two inputs with the same 51 lines from the header of a block.
\<close>

definition crossing_a :: "string list" where
  "crossing_a =
     [''--- !u!114 &200\<newline>'',
      ''MonoBehaviour:\<newline>'',
      ''  m_Enabled: 1\<newline>'',
      ''--- !u!114 &300\<newline>'',
      ''MonoBehaviour:\<newline>'',
      ''  m_GameObject: {fileID: 7}\<newline>'']"

definition crossing_b :: "string list" where
  "crossing_b =
     [''--- !u!114 &200\<newline>'',
      ''MonoBehaviour:\<newline>'',
      ''  m_Enabled: 1\<newline>'',
      ''--- !u!114 &300\<newline>'',
      ''MonoBehaviour:\<newline>'',
      ''  m_GameObject: {fileID: 8}\<newline>'']"

definition door_block :: "string list" where
  "door_block =
     [''--- !u!1 &100\<newline>'',
      ''  m_Name: Door\<newline>'',
      ''--- !u!114 &200\<newline>'',
      ''  m_GameObject: {fileID: 100}\<newline>'']"

definition gate_block :: "string list" where
  "gate_block =
     [''--- !u!1 &100\<newline>'',
      ''  m_Name: Gate\<newline>'',
      ''--- !u!114 &200\<newline>'',
      ''  m_GameObject: {fileID: 100}\<newline>'']"

definition long_block :: "string list" where
  "long_block =
     ''--- !u!114 &200\<newline>'' # ''  m_GameObject: {fileID: 100}\<newline>'' #
     replicate 46 ''  m_Enabled: 1\<newline>'' @
     [''--- !u!114 &300\<newline>'', ''MonoBehaviour:\<newline>'', ''  m_GameObject: {fileID: 7}\<newline>'']"

definition stretch_a :: "string list" where
  "stretch_a = [''GameObject:\<newline>''] @ long_block @ [''  m_Name: A\<newline>'']"

definition stretch_b :: "string list" where
  "stretch_b = [''Transform:\<newline>'', ''  m_Father: {fileID: 0}\<newline>''] @ long_block @
               [''  m_Name: B\<newline>'']"

section \<open>The pieces of a split\<close>

text \<open>
  The source takes the piece 1 of a split only of a line that contains the separator, and
  the piece 0 of any split: both are there, so no index is out of range.
\<close>

lemma split_from_nonempty: "1 \<le> length (split_from sep piece s)"
  by (induction sep piece s rule: split_from.induct) (subst split_from.simps, simp)

lemma split_from_length:
  "contains sep s \<Longrightarrow> sep \<noteq> [] \<Longrightarrow> 2 \<le> length (split_from sep piece s)"
proof (induction sep piece s rule: split_from.induct)
  case (1 sep piece s)
  show ?case
  proof (cases s)
    case Nil
    with "1.prems" show ?thesis by simp
  next
    case (Cons c cs)
    show ?thesis
    proof (cases "startswith s sep")
      case True
      have "1 \<le> length (split_from sep [] (drop (length sep) s))"
        by (rule split_from_nonempty)
      with True Cons "1.prems" show ?thesis
        by (subst split_from.simps) simp
    next
      case False
      with Cons "1.prems" have "contains sep (tl s)" by simp
      with "1.IH"(2) False Cons "1.prems" show ?thesis
        by (subst split_from.simps) simp
    qed
  qed
qed

lemma py_split_first: "0 < length (py_split sep s)"
  using split_from_nonempty [of sep "[]" s] unfolding py_split_def by linarith

lemma py_split_second: "contains sep s \<Longrightarrow> sep \<noteq> [] \<Longrightarrow> 1 < length (py_split sep s)"
  using split_from_length [of sep s "[]"] by (simp add: py_split_def)

lemma startswith_drop: "startswith s (p @ q) \<Longrightarrow> startswith (drop (length p) s) q"
  by (induction s p rule: startswith.induct) auto

lemma contains_startswith: "startswith s sub \<Longrightarrow> contains sub s"
  by (cases s) (auto elim: startswith.elims)

lemma contains_drop: "contains sub (drop n s) \<Longrightarrow> contains sub s"
proof (induction s arbitrary: n)
  case Nil then show ?case by simp
next
  case (Cons c cs)
  then show ?case by (cases n) auto
qed

lemma contains_suffix: "contains (p @ q) s \<Longrightarrow> contains q s"
proof (induction s)
  case Nil then show ?case by simp
next
  case (Cons c cs)
  show ?case
  proof (cases "startswith (c # cs) (p @ q)")
    case True
    then have "contains q (drop (length p) (c # cs))"
      by (intro contains_startswith startswith_drop)
    then show ?thesis by (rule contains_drop)
  next
    case False
    with Cons show ?thesis by auto
  qed
qed

lemma field_value_in_range: "arg_field line \<Longrightarrow> 1 < length (py_split '':'' line)"
proof -
  assume "arg_field line"
  then have "contains '':'' line"
    unfolding arg_field_def
    using contains_suffix [of "''m_IntArgument''" "'':''" line]
      contains_suffix [of "''m_FloatArgument''" "'':''" line]
      contains_suffix [of "''m_StringArgument''" "'':''" line]
      contains_suffix [of "''m_BoolArgument''" "'':''" line]
    by auto
  then show ?thesis by (rule py_split_second) simp
qed

section \<open>The loop over the call records\<close>

text \<open>
  The method lookahead starts at \<open>m = k\<close>, the list item itself, and stops at a line that
  starts with the list item prefix: it stops at once.
\<close>

lemma lookahead_at_item:
  "startswith (lines ! k) ''      -'' \<Longrightarrow> lookahead lines k k call = (call, k)"
  by (simp add: lookahead.simps)

lemma method_extract_target: "method_name (extract_target gos line call) = method_name call"
  by (simp add: extract_target_def split: option.splits)

lemma call_record_at_item:
  "startswith (lines ! k) ''      -'' \<Longrightarrow> call_record lines gos event_name k cd = (cd, k)"
  by (simp add: call_record_def lookahead_at_item append_call_def new_call_def
        method_extract_target)

text \<open>So a round of the loop over the call records leaves \<open>k\<close> where it was.\<close>

lemma parse_calls_never_returns:
  assumes "parse_calls lines gos event_name k cd = Some r"
  shows "\<not> (k < length lines \<and> startswith (lines ! k) ''      -'')"
proof (rule parse_calls.raw_induct
    [where P = "\<lambda>lines gos event_name k cd r.
                  \<not> (k < length lines \<and> startswith (lines ! k) ''      -'')",
      OF _ assms])
  fix f :: "string list \<Rightarrow> gameobjects \<Rightarrow> string \<Rightarrow> nat \<Rightarrow> comp_data \<Rightarrow> comp_data option"
    and lines gos event_name k cd r
  assume IH: "\<And>lines gos event_name k cd r. f lines gos event_name k cd = Some r \<Longrightarrow>
                \<not> (k < length lines \<and> startswith (lines ! k) ''      -'')"
    and step: "(if k < length lines \<and> startswith (lines ! k) ''      -''
                then (case call_record lines gos event_name k cd of
                        (cd', m) \<Rightarrow> f lines gos event_name m cd')
                else Some cd) = Some r"
  show "\<not> (k < length lines \<and> startswith (lines ! k) ''      -'')"
  proof
    assume item: "k < length lines \<and> startswith (lines ! k) ''      -''"
    with step have "f lines gos event_name k cd = Some r"
      by (simp add: call_record_at_item)
    from IH [OF this] item show False by simp
  qed
qed

lemma parse_calls_eq:
  "parse_calls lines gos event_name k cd =
     (if k < length lines \<and> startswith (lines ! k) ''      -'' then None else Some cd)"
proof (cases "k < length lines \<and> startswith (lines ! k) ''      -''")
  case True
  then have "parse_calls lines gos event_name k cd = None"
    using parse_calls_never_returns [of lines gos event_name k cd]
    by (cases "parse_calls lines gos event_name k cd") auto
  with True show ?thesis by simp
next
  case False
  then show ?thesis by (subst parse_calls.simps) auto
qed

text \<open>An event with a list of calls that has an item stops the scan of its block.\<close>

lemma event_calls_eq:
  "event_calls lines gos j cd = (if calls_at lines j then None else Some cd)"
  by (auto simp: event_calls_def calls_at_def parse_calls_eq Let_def)

text \<open>What \<open>parse_scene\<close> returns, when it returns, is the empty list.\<close>

lemma event_calls_Some: "event_calls lines gos j cd = Some cd' \<Longrightarrow> cd' = cd"
  by (auto simp: event_calls_def parse_calls_eq Let_def split: if_splits)

lemma find_events_Some: "find_events lines gos i j cd = Some cd' \<Longrightarrow> cd' = cd"
proof (induction lines gos i j cd rule: find_events.induct)
  case (1 lines gos i j cd)
  from "1.prems" show ?case
    by (subst (asm) find_events.simps)
       (auto split: if_splits option.splits dest: event_calls_Some "1.IH")
qed

lemma events_find_gameobject: "events (find_gameobject lines gos i j cd) = events cd"
  by (induction lines gos i j cd rule: find_gameobject.induct)
     (subst find_gameobject.simps, simp split: option.splits)

lemma events_set_type: "events (set_type t cd) = events cd"
  by (simp add: set_type_def)

lemma parse_component_events: "parse_component lines gos i cid = Some cd \<Longrightarrow> events cd = []"
  by (auto simp: parse_component_def events_find_gameobject events_set_type
           dest!: find_events_Some)

lemma scan_components_Some:
  "scan_components lines gos i components = Some r \<Longrightarrow> r = components"
proof (induction lines gos i components rule: scan_components.induct)
  case (1 lines gos i components)
  from "1.prems" show ?case
    by (subst (asm) scan_components.simps)
       (auto simp: retain_def split: if_splits option.splits
             dest: "1.IH" parse_component_events)
qed

lemma parse_scene_Some: "parse_scene lines = Some r \<Longrightarrow> r = []"
  by (auto simp: parse_scene_def dest: scan_components_Some)

text \<open>
  \<open>parse_scene\<close> does not return exactly when a behaviour block has, before its end, an
  event with a list of calls that has an item.
\<close>

lemma find_events_unfold:
  "find_events lines gos i j cd =
     (if j < length lines \<and> \<not> (i < j \<and> startswith (lines ! j) ''---'')
      then if calls_at lines j then None else find_events lines gos i (j + 1) cd
      else Some cd)"
  by (subst find_events.simps) (simp add: event_calls_eq)

lemma find_events_None_iff:
  "find_events lines gos i j cd = None \<longleftrightarrow>
     (\<exists>j'. j \<le> j' \<and> calls_at lines j' \<and>
           (\<forall>x. j \<le> x \<and> x \<le> j' \<longrightarrow> \<not> (i < x \<and> startswith (lines ! x) ''---'')))"
proof (induction lines gos i j cd rule: find_events.induct)
  case (1 lines gos i j cd)
  let ?stop = "\<lambda>x. i < x \<and> startswith (lines ! x) ''---''"
  let ?hang = "\<lambda>j. \<exists>j'. j \<le> j' \<and> calls_at lines j' \<and> (\<forall>x. j \<le> x \<and> x \<le> j' \<longrightarrow> \<not> ?stop x)"
  have len: "j' + 3 < length lines" if "calls_at lines j'" for j'
    using that by (simp add: calls_at_def)
  show ?case
  proof (cases "j < length lines \<and> \<not> ?stop j")
    case False
    then have "find_events lines gos i j cd = Some cd"
      by (subst find_events_unfold) auto
    moreover have "\<not> ?hang j"
    proof
      assume "?hang j"
      then obtain j' where j': "j \<le> j'" "calls_at lines j'" "\<forall>x. j \<le> x \<and> x \<le> j' \<longrightarrow> \<not> ?stop x"
        by blast
      from len [OF j'(2)] j'(1) have "j < length lines" by simp
      moreover from j'(1,3) have "\<not> ?stop j" by blast
      ultimately show False using False by blast
    qed
    ultimately show ?thesis by simp
  next
    case go: True
    show ?thesis
    proof (cases "calls_at lines j")
      case True
      with go have "find_events lines gos i j cd = None"
        by (subst find_events_unfold) simp
      moreover from True go have "?hang j" by (intro exI [of _ j]) auto
      ultimately show ?thesis by simp
    next
      case False
      with go have eq: "find_events lines gos i j cd = find_events lines gos i (j + 1) cd"
        by (subst find_events_unfold) simp
      from False have ec: "event_calls lines gos j cd = Some cd" by (simp add: event_calls_eq)
      from go have c1: "j < length lines" and c2: "\<not> (j > i \<and> startswith (lines ! j) ''---'')"
        by auto
      note IH = "1.IH" [OF c1 c2 ec]
      have "?hang j \<longleftrightarrow> ?hang (j + 1)"
      proof
        assume "?hang j"
        then obtain j' where j': "j \<le> j'" "calls_at lines j'"
          "\<forall>x. j \<le> x \<and> x \<le> j' \<longrightarrow> \<not> ?stop x"
          by blast
        with False have "j \<noteq> j'" by auto
        with j'(1) have "j + 1 \<le> j'" by simp
        with j'(2,3) show "?hang (j + 1)" by (intro exI [of _ j']) auto
      next
        assume "?hang (j + 1)"
        then obtain j' where j': "j + 1 \<le> j'" "calls_at lines j'"
          "\<forall>x. j + 1 \<le> x \<and> x \<le> j' \<longrightarrow> \<not> ?stop x"
          by blast
        have "\<forall>x. j \<le> x \<and> x \<le> j' \<longrightarrow> \<not> ?stop x"
        proof (intro allI impI)
          fix x assume "j \<le> x \<and> x \<le> j'"
          then consider "x = j" | "j + 1 \<le> x \<and> x \<le> j'" by linarith
          then show "\<not> ?stop x" using go j'(3) by cases blast+
        qed
        with j'(1,2) show "?hang j" by (intro exI [of _ j']) auto
      qed
      with eq IH show ?thesis by simp
    qed
  qed
qed

lemma parse_component_None_iff:
  "parse_component lines gos i cid = None \<longleftrightarrow>
     (\<exists>j. i \<le> j \<and> calls_at lines j \<and>
          (\<forall>x. i < x \<and> x \<le> j \<longrightarrow> \<not> startswith (lines ! x) ''---''))"
  unfolding parse_component_def find_events_None_iff by auto

lemma scan_components_None_iff:
  "scan_components lines gos i components = None \<longleftrightarrow>
     (\<exists>i' cid. i \<le> i' \<and> i' < length lines \<and>
        match_digits ''--- !u!114 &'' (lines ! i') = Some cid \<and>
        parse_component lines gos i' cid = None)"
proof (induction lines gos i components rule: scan_components.induct)
  case (1 lines gos i components)
  let ?bad = "\<lambda>i'. \<exists>cid. i' < length lines \<and>
        match_digits ''--- !u!114 &'' (lines ! i') = Some cid \<and>
        parse_component lines gos i' cid = None"
  have split: "(\<exists>i'. i \<le> i' \<and> ?bad i') \<longleftrightarrow> ?bad i \<or> (\<exists>i'. i + 1 \<le> i' \<and> ?bad i')"
  proof
    assume "\<exists>i'. i \<le> i' \<and> ?bad i'"
    then obtain i' where i': "i \<le> i'" "?bad i'" by blast
    then consider "i' = i" | "i + 1 \<le> i'" by linarith
    then show "?bad i \<or> (\<exists>i'. i + 1 \<le> i' \<and> ?bad i')" using i'(2) by cases blast+
  next
    assume "?bad i \<or> (\<exists>i'. i + 1 \<le> i' \<and> ?bad i')"
    then show "\<exists>i'. i \<le> i' \<and> ?bad i'"
    proof
      assume "?bad i" then show ?thesis by (intro exI [of _ i]) simp
    next
      assume "\<exists>i'. i + 1 \<le> i' \<and> ?bad i'"
      then obtain i' where "i + 1 \<le> i'" "?bad i'" by blast
      then show ?thesis by (intro exI [of _ i']) simp
    qed
  qed
  have goal: "scan_components lines gos i components = None \<longleftrightarrow> (\<exists>i'. i \<le> i' \<and> ?bad i')"
  proof (cases "i < length lines")
    case False
    then have "scan_components lines gos i components = Some components"
      by (subst scan_components.simps) simp
    moreover from False have "\<not> (\<exists>i'. i \<le> i' \<and> ?bad i')" by auto
    ultimately show ?thesis by simp
  next
    case inside: True
    show ?thesis
    proof (cases "match_digits ''--- !u!114 &'' (lines ! i)")
      case None
      with inside have "scan_components lines gos i components =
                        scan_components lines gos (i + 1) components"
        by (subst scan_components.simps) simp
      moreover from None have "\<not> ?bad i" by simp
      moreover note "1.IH"(1) [OF inside None]
      ultimately show ?thesis unfolding split by auto
    next
      case (Some cid)
      show ?thesis
      proof (cases "parse_component lines gos i cid")
        case None
        with inside Some have "scan_components lines gos i components = None"
          by (subst scan_components.simps) simp
        moreover from None inside Some have "?bad i" by simp
        ultimately show ?thesis unfolding split by simp
      next
        case cd: (Some cd)
        with inside Some have "scan_components lines gos i components =
            scan_components lines gos (i + 1) (retain components cd)"
          by (subst scan_components.simps) simp
        moreover from cd Some have "\<not> ?bad i" by simp
        moreover note "1.IH"(2) [OF inside Some cd]
        ultimately show ?thesis unfolding split by auto
      qed
    qed
  qed
  then show ?case by blast
qed

lemma parse_scene_None_iff:
  "parse_scene lines = None \<longleftrightarrow>
     (\<exists>i j. i < length lines \<and> match_digits ''--- !u!114 &'' (lines ! i) \<noteq> None \<and>
            i \<le> j \<and> calls_at lines j \<and>
            (\<forall>x. i < x \<and> x \<le> j \<longrightarrow> \<not> startswith (lines ! x) ''---''))"
  unfolding parse_scene_def scan_components_None_iff parse_component_None_iff
  by (auto intro: exI [of _ 0])

text \<open>The definitions a closed input is evaluated with.\<close>

lemmas char_classes = is_space_def is_digit_def is_letter_def is_word_def

lemmas string_eval = py_split_def split_from.simps strip_def name_of_def field_value_def
  rstrip_colon_def

lemmas arg_eval = arg_window_def arg_field_def string_eval char_classes

lemmas scene_eval =
  parse_scene_def scan_components.simps match_digits_def parse_component_def
  find_events.simps event_calls_def match_event_def parse_calls_eq char_classes

lemmas block_eval = scene_eval find_gameobject.simps find_type.simps type_candidate_def
  set_type_def resolve_def build_gameobjects_def object_id_def string_eval

section \<open>Termination\<close>

text \<open>
  Claim C1: for every finite list of lines \<open>parse_scene\<close> terminates; the loop over the
  call records, whose cursor \<open>k\<close> is set to the position \<open>m\<close> of the method lookahead,
  reaches the end of the input or a boundary after finitely many steps.

  The code does not: on a block with one event and one call record the loop over the call
  records never ends, and \<open>parse_scene\<close> does not return.
\<close>

theorem parse_scene_one_call_diverges: "parse_scene one_call_scene = None"
  by (simp add: one_call_scene_def scene_eval)

section \<open>Retained calls\<close>

text \<open>
  Claim C2: for every input with a behaviour block (header of type 114) in which an event
  line is followed by the container of the persistent calls, the list of calls and one
  call record with a method name, \<open>parse_scene\<close> returns a component whose events hold
  exactly one call, with that method.

  The code does not return on such an input: the loop over the call records never ends
  (see C1). Here the input is the scene of the object \<open>Door\<close>.
\<close>

theorem parse_scene_door_diverges: "parse_scene door_scene = None"
  by (simp add: door_scene_def scene_eval)

section \<open>Calls without a method\<close>

text \<open>Only a line with the method field sets the key \<open>method\<close>.\<close>

lemma method_arg_step: "method_name (arg_step line call) = method_name call"
  by (simp add: arg_step_def)

lemma method_scan_args: "method_name (scan_args lines m a call) = method_name call"
  by (induction lines m a call rule: scan_args.induct)
     (subst scan_args.simps, simp add: method_arg_step)

lemma method_method_step:
  "\<not> contains ''m_MethodName:'' (lines ! m) \<Longrightarrow>
   method_name (method_step lines m call) = method_name call"
  by (simp add: method_step_def method_scan_args Let_def)

lemma lookahead_no_method:
  "\<forall>x. m \<le> x \<and> x < min (k + 10) (length lines) \<longrightarrow> \<not> contains ''m_MethodName:'' (lines ! x) \<Longrightarrow>
   method_name (fst (lookahead lines k m call)) = method_name call"
proof (induction lines k m call rule: lookahead.induct)
  case (1 lines k m call)
  show ?case
  proof (cases "m < min (k + 10) (length lines) \<and> \<not> startswith (lines ! m) ''      -''")
    case True
    with "1.prems" have "\<not> contains ''m_MethodName:'' (lines ! m)" by simp
    moreover from "1.prems" have "\<forall>x. m + 1 \<le> x \<and> x < min (k + 10) (length lines) \<longrightarrow>
        \<not> contains ''m_MethodName:'' (lines ! x)" by simp
    ultimately show ?thesis
      using True "1.IH" by (subst lookahead.simps) (simp add: method_method_step)
  next
    case False
    then show ?thesis by (subst lookahead.simps) auto
  qed
qed

text \<open>
  Claim C8: a call record for which the lookahead recovers no method name is dropped: it
  is not appended to the events of the component, and nothing else changes.

  The body of the loop returns the component as it was when the call that the lookahead
  returns has no method, and so when none of the 10 lines from the call record has the
  method field.
\<close>

theorem call_without_method_dropped:
  "(lookahead lines k k (extract_target gos (lines ! k) (new_call event_name)) = (call, m) \<and>
    method_name call = None \<longrightarrow>
      call_record lines gos event_name k cd = (cd, m)) \<and>
   ((\<forall>x. k \<le> x \<and> x < min (k + 10) (length lines) \<longrightarrow>
          \<not> contains ''m_MethodName:'' (lines ! x)) \<longrightarrow>
      fst (call_record lines gos event_name k cd) = cd)"
proof (intro conjI impI)
  assume "lookahead lines k k (extract_target gos (lines ! k) (new_call event_name)) = (call, m) \<and>
    method_name call = None"
  then show "call_record lines gos event_name k cd = (cd, m)"
    by (simp add: call_record_def append_call_def)
next
  assume "\<forall>x. k \<le> x \<and> x < min (k + 10) (length lines) \<longrightarrow>
          \<not> contains ''m_MethodName:'' (lines ! x)"
  then have "method_name (fst (lookahead lines k k
               (extract_target gos (lines ! k) (new_call event_name)))) = None"
    by (simp add: lookahead_no_method method_extract_target new_call_def)
  then show "fst (call_record lines gos event_name k cd) = cd"
    by (cases "lookahead lines k k (extract_target gos (lines ! k) (new_call event_name))")
       (simp add: call_record_def append_call_def)
qed

theorem call_without_method_dropped_witness:
  "call_record one_call_scene Map.empty ''onOpen'' 4 kept = (kept, 4) \<and>
   fst (call_record target_only Map.empty ''onOpen'' 0 kept) = kept"
proof
  let ?call = "extract_target Map.empty (one_call_scene ! 4) (new_call ''onOpen'')"
  have la: "lookahead one_call_scene 4 4 ?call = (?call, 4)"
    by (rule lookahead_at_item) (simp add: one_call_scene_def)
  have "method_name ?call = None"
    by (simp add: method_extract_target new_call_def)
  with la call_without_method_dropped [of one_call_scene 4 Map.empty "''onOpen''" ?call 4 kept]
  show "call_record one_call_scene Map.empty ''onOpen'' 4 kept = (kept, 4)"
    by blast
  have "\<forall>x. 0 \<le> x \<and> x < min (0 + 10) (length target_only) \<longrightarrow>
          \<not> contains ''m_MethodName:'' (target_only ! x)"
    by (simp add: target_only_def less_Suc_eq numeral_3_eq_3)
  with call_without_method_dropped [of target_only 0 Map.empty "''onOpen''" _ _ kept]
  show "fst (call_record target_only Map.empty ''onOpen'' 0 kept) = kept"
    by blast
qed

section \<open>References to unknown objects\<close>

text \<open>The owner loop returns what the first line with the owner field gives.\<close>

lemma find_gameobject_first:
  assumes "i \<le> j" "j < min (i + 20) (length lines)"
    and "\<forall>x. i \<le> x \<and> x < j \<longrightarrow> \<not> contains ''m_GameObject: {fileID:'' (lines ! x)"
    and "contains ''m_GameObject: {fileID:'' (lines ! j)"
    and "i0 \<le> i"  "j < min (i0 + 20) (length lines)"
  shows "find_gameobject lines gos i0 i cd =
         (case search_fileID (lines ! j) of
            Some go_id \<Rightarrow> cd\<lparr>gameobject := Some (resolve gos go_id)\<rparr>
          | None \<Rightarrow> cd)"
  using assms
proof (induction "j - i" arbitrary: i)
  case 0
  then have "i = j" by simp
  with 0 show ?case by (subst find_gameobject.simps) simp
next
  case (Suc n)
  then have "i < j" by simp
  with Suc.prems have no: "\<not> contains ''m_GameObject: {fileID:'' (lines ! i)" by simp
  have "find_gameobject lines gos i0 (i + 1) cd =
         (case search_fileID (lines ! j) of
            Some go_id \<Rightarrow> cd\<lparr>gameobject := Some (resolve gos go_id)\<rparr>
          | None \<Rightarrow> cd)"
    using Suc.hyps(2) Suc.prems \<open>i < j\<close> by (intro Suc.hyps(1)) auto
  with no \<open>i < j\<close> Suc.prems show ?case by (subst find_gameobject.simps) simp
qed

lemma gameobject_set_type: "gameobject (set_type t cd) = gameobject cd"
  by (simp add: set_type_def)

lemma parse_component_gameobject:
  "parse_component lines gos i cid = Some cd \<Longrightarrow>
   gameobject cd = gameobject (find_gameobject lines gos i i
       \<lparr>comp_id = cid, events = [], gameobject = None, comp_type = None\<rparr>)"
  by (auto simp: parse_component_def gameobject_set_type dest!: find_events_Some)

text \<open>The lookahead leaves the target of the call as it is.\<close>

lemma target_arg_step: "target_name (arg_step line call) = target_name call"
  by (simp add: arg_step_def)

lemma target_scan_args: "target_name (scan_args lines m a call) = target_name call"
  by (induction lines m a call rule: scan_args.induct)
     (subst scan_args.simps, simp add: target_arg_step)

lemma target_method_step: "target_name (method_step lines m call) = target_name call"
  by (simp add: method_step_def target_scan_args Let_def)

lemma target_lookahead: "target_name (fst (lookahead lines k m call)) = target_name call"
  by (induction lines k m call rule: lookahead.induct)
     (subst lookahead.simps, simp add: target_method_step)

lemma search_fileID_owner: "search_fileID ''  m_GameObject: {fileID: 100}\<newline>'' = Some ''100''"
  by (simp add: match_digits_def is_digit_def)

lemma search_fileID_target: "search_fileID ''      - m_Target: {fileID: 100}\<newline>'' = Some ''100''"
  by (simp add: match_digits_def is_digit_def)

text \<open>
  Claim C5: an owner or target reference whose id has no entry in the identifier mapping
  resolves to the placeholder \<open>Unknown-\<close> followed by the id, and never fails: the name is
  recorded and processing goes on.

  \<open>ref\<close> is the id the search finds in the line. For a target, the line is the call
  record, and the placeholder stays in the call through the lookahead; for an owner, it is
  the first line with the owner field in the 20 lines from the header \<open>i\<close>, and the
  placeholder is in the component of the block when the block is done.
  No function here has an error value: the source has no statement that can raise in
  these lines.
\<close>

theorem unknown_reference_placeholder:
  assumes "search_fileID line = Some ref" and "gos ref = None"
  shows "(contains ''m_Target: {fileID:'' line \<longrightarrow>
            target_name (extract_target gos line call) = Some (''Unknown-'' @ ref) \<and>
            target_name (fst (lookahead lines k m (extract_target gos line call))) =
              Some (''Unknown-'' @ ref)) \<and>
         (contains ''m_GameObject: {fileID:'' line \<longrightarrow>
            i \<le> j \<longrightarrow> j < min (i + 20) (length lines) \<longrightarrow> lines ! j = line \<longrightarrow>
            (\<forall>x. i \<le> x \<and> x < j \<longrightarrow> \<not> contains ''m_GameObject: {fileID:'' (lines ! x)) \<longrightarrow>
            gameobject (find_gameobject lines gos i i cd) = Some (''Unknown-'' @ ref) \<and>
            (\<forall>cd'. parse_component lines gos i cid = Some cd' \<longrightarrow>
                   gameobject cd' = Some (''Unknown-'' @ ref)))"
proof (intro conjI impI)
  assume "contains ''m_Target: {fileID:'' line"
  with assms show t: "target_name (extract_target gos line call) = Some (''Unknown-'' @ ref)"
    by (simp add: extract_target_def resolve_def)
  then show "target_name (fst (lookahead lines k m (extract_target gos line call))) =
              Some (''Unknown-'' @ ref)"
    by (simp add: target_lookahead)
next
  assume h: "contains ''m_GameObject: {fileID:'' line" "i \<le> j" "j < min (i + 20) (length lines)"
    "lines ! j = line"
    "\<forall>x. i \<le> x \<and> x < j \<longrightarrow> \<not> contains ''m_GameObject: {fileID:'' (lines ! x)"
  have *: "gameobject (find_gameobject lines gos i i cd0) = Some (''Unknown-'' @ ref)" for cd0
    using find_gameobject_first [of i j lines i gos cd0] h assms
    by (simp add: resolve_def)
  show "gameobject (find_gameobject lines gos i i cd) = Some (''Unknown-'' @ ref)"
    by (rule *)
  show "\<forall>cd'. parse_component lines gos i cid = Some cd' \<longrightarrow>
                   gameobject cd' = Some (''Unknown-'' @ ref)"
    by (auto dest!: parse_component_gameobject simp: *)
qed

theorem unknown_reference_placeholder_witness:
  "target_name (extract_target Map.empty ''      - m_Target: {fileID: 100}\<newline>'' (new_call ''onOpen''))
     = Some ''Unknown-100'' \<and>
   parse_component plain_scene Map.empty 0 ''300'' =
     Some \<lparr>comp_id = ''300'', events = [], gameobject = Some ''Unknown-100'', comp_type = None\<rparr>"
proof
  show "target_name (extract_target Map.empty ''      - m_Target: {fileID: 100}\<newline>'' (new_call ''onOpen''))
     = Some ''Unknown-100''"
    using unknown_reference_placeholder [OF search_fileID_target, of Map.empty "new_call ''onOpen''"]
    by simp
  have "gameobject (find_gameobject plain_scene Map.empty 0 0 cd) = Some ''Unknown-100'' \<and>
        (\<forall>cd'. parse_component plain_scene Map.empty 0 ''300'' = Some cd' \<longrightarrow>
                   gameobject cd' = Some ''Unknown-100'')" for cd
    using unknown_reference_placeholder
      [OF search_fileID_owner, of Map.empty _ plain_scene _ _ 0 2 cd "''300''"]
    by (simp add: plain_scene_def less_Suc_eq numeral_2_eq_2)
  moreover have "parse_component plain_scene Map.empty 0 ''300'' =
     Some \<lparr>comp_id = ''300'', events = [], gameobject = Some ''Unknown-100'', comp_type = None\<rparr>"
    by (simp add: plain_scene_def scene_eval find_gameobject.simps
        find_type.simps type_candidate_def set_type_def strip_def resolve_def)
  ultimately show "parse_component plain_scene Map.empty 0 ''300'' =
     Some \<lparr>comp_id = ''300'', events = [], gameobject = Some ''Unknown-100'', comp_type = None\<rparr>"
    by simp
qed

section \<open>Components without events\<close>

lemma retain_events:
  "\<forall>c\<in>set components. events c \<noteq> [] \<Longrightarrow> \<forall>c\<in>set (retain components cd). events c \<noteq> []"
  by (simp add: retain_def)

lemma scan_components_events:
  "scan_components lines gos i components = Some r \<Longrightarrow>
   \<forall>c\<in>set components. events c \<noteq> [] \<Longrightarrow> \<forall>c\<in>set r. events c \<noteq> []"
proof (induction lines gos i components rule: scan_components.induct)
  case (1 lines gos i components)
  show ?case
  proof (cases "i < length lines")
    case False
    with "1.prems" show ?thesis
      by (subst (asm) scan_components.simps) simp
  next
    case inside: True
    show ?thesis
    proof (cases "match_digits ''--- !u!114 &'' (lines ! i)")
      case None
      with inside "1.prems"(1) have "scan_components lines gos (i + 1) components = Some r"
        by (subst (asm) scan_components.simps) simp
      from "1.IH"(1) [OF inside None this "1.prems"(2)] show ?thesis .
    next
      case (Some cid)
      with inside "1.prems"(1) obtain cd where
        cd: "parse_component lines gos i cid = Some cd"
        and rest: "scan_components lines gos (i + 1) (retain components cd) = Some r"
        by (subst (asm) scan_components.simps) (auto split: option.splits)
      from "1.IH"(2) [OF inside Some cd rest retain_events [OF "1.prems"(2)]]
      show ?thesis .
    qed
  qed
qed

lemma plain_scene_scan: "scan_components plain_scene Map.empty 0 [kept] = Some [kept]"
  by (simp add: plain_scene_def scene_eval retain_def find_gameobject.simps
        find_type.simps type_candidate_def set_type_def strip_def resolve_def)

text \<open>
  Claim C6: every component in the list \<open>parse_scene\<close> returns has an event; a block from
  which no call is extracted is not in the list.

  The scan of the blocks keeps this for any list of components it starts from, by the test
  of lines 140 and 141; \<open>parse_scene\<close> starts it from the empty list.
\<close>

theorem kept_components_have_events:
  assumes "scan_components lines gos i components = Some r"
    and "\<forall>c\<in>set components. events c \<noteq> []"
  shows "(\<forall>c\<in>set r. events c \<noteq> []) \<and>
         (\<forall>r'. parse_scene lines = Some r' \<longrightarrow> (\<forall>c\<in>set r'. events c \<noteq> []))"
proof
  from assms show "\<forall>c\<in>set r. events c \<noteq> []" by (rule scan_components_events)
  show "\<forall>r'. parse_scene lines = Some r' \<longrightarrow> (\<forall>c\<in>set r'. events c \<noteq> [])"
    unfolding parse_scene_def by (auto dest: scan_components_events)
qed

theorem kept_components_have_events_witness:
  "scan_components plain_scene Map.empty 0 [kept] = Some [kept] \<and> events kept \<noteq> []"
  using kept_components_have_events [OF plain_scene_scan] plain_scene_scan
  by (simp add: kept_def)

section \<open>The identifier mapping\<close>

lemma object_id_nonempty: "object_id line = Some i \<Longrightarrow> i \<noteq> []"
  by (auto simp: object_id_def match_digits_def Let_def split: if_splits)

lemma map_upd_add: "(m(k \<mapsto> v)) ++ n = m ++ ([k \<mapsto> v] ++ n)"
  by (rule ext) (simp add: map_add_def split: option.splits)

lemma first_pass_named:
  "fst (first_pass lines (gos, cur)) = settle gos cur lines ++ map_of (rev (named_headers lines))"
proof (induction lines arbitrary: gos cur)
  case Nil
  show ?case by (simp add: settle_def)
next
  case (Cons line rest)
  note IH = Cons.IH
  show ?case
  proof (cases "object_id line")
    case (Some i)
    then have t: "truthy (Some i)" by (simp add: object_id_nonempty)
    show ?thesis
    proof (cases "pending_name rest")
      case None
      with Some show ?thesis by (simp add: IH settle_def)
    next
      case (Some name)
      have "fst (first_pass (line # rest) (gos, cur)) =
              gos(i \<mapsto> name) ++ map_of (rev (named_headers rest))"
        using \<open>object_id line = Some i\<close> t Some by (simp add: IH settle_def fun_upd_def)
      also have "\<dots> = gos ++ ([i \<mapsto> name] ++ map_of (rev (named_headers rest)))"
        by (rule map_upd_add)
      also have "\<dots> = settle gos cur (line # rest) ++ map_of (rev (named_headers (line # rest)))"
        using \<open>object_id line = Some i\<close> Some by (simp add: settle_def)
      finally show ?thesis .
    qed
  next
    case None
    show ?thesis
    proof (cases "truthy cur \<and> contains ''m_Name:'' line")
      case True
      with None show ?thesis by (simp add: IH settle_def split: option.splits)
    next
      case False
      with None show ?thesis
        by (auto simp: IH settle_def split: option.splits)
    qed
  qed
qed

lemma build_gameobjects_named:
  "build_gameobjects lines = map_of (rev (named_headers lines))"
  by (simp add: build_gameobjects_def first_pass_named settle_def split: option.splits)

lemma named_headers_ids:
  "each_header_named lines \<Longrightarrow> map fst (named_headers lines) = object_ids lines"
  by (induction lines) (auto split: option.splits)

lemma dom_named: "dom (map_of (rev xs)) = set (map fst xs)"
  by (simp add: dom_map_of_conv_image_fst)

lemma last_wins: "i \<notin> fst ` set ys \<Longrightarrow> map_of (rev (xs @ (i, name) # ys)) i = Some name"
  by (simp add: map_add_Some_iff map_of_eq_None_iff)

text \<open>
  Claim C7: for an input with N object headers (type 1) of N distinct ids, each followed
  by a name field before the next object header, the identifier mapping has exactly N
  entries, keyed by those ids; when the header of an id comes again, the name recorded last
  wins.

  The mapping of the first pass is the one of the named headers, read from the last to the
  first: an id has the name of its last named header.
\<close>

theorem identifier_mapping:
  "build_gameobjects lines = map_of (rev (named_headers lines)) \<and>
   (\<forall>xs i name ys. named_headers lines = xs @ (i, name) # ys \<and> i \<notin> fst ` set ys \<longrightarrow>
      build_gameobjects lines i = Some name) \<and>
   (each_header_named lines \<longrightarrow>
      dom (build_gameobjects lines) = set (object_ids lines) \<and>
      (distinct (object_ids lines) \<longrightarrow>
         card (dom (build_gameobjects lines)) = length (object_ids lines)))"
proof (intro conjI allI impI)
  show eq: "build_gameobjects lines = map_of (rev (named_headers lines))"
    by (rule build_gameobjects_named)
  show "build_gameobjects lines i = Some name"
    if "named_headers lines = xs @ (i, name) # ys \<and> i \<notin> fst ` set ys" for xs i name ys
    using that last_wins [of i ys xs name] by (simp add: eq)
  assume named: "each_header_named lines"
  then show d: "dom (build_gameobjects lines) = set (object_ids lines)"
    by (simp only: eq dom_named named_headers_ids)
  assume "distinct (object_ids lines)"
  then show "card (dom (build_gameobjects lines)) = length (object_ids lines)"
    by (simp only: d distinct_card)
qed

theorem identifier_mapping_witness:
  "dom (build_gameobjects two_objects) = {''100'', ''101''} \<and>
   card (dom (build_gameobjects two_objects)) = 2 \<and>
   build_gameobjects two_objects ''101'' = Some ''Key'' \<and>
   build_gameobjects renamed_object ''100'' = Some ''Gate''"
proof -
  have ids: "object_ids two_objects = [''100'', ''101'']"
    by (simp add: two_objects_def object_id_def match_digits_def char_classes)
  have named: "each_header_named two_objects"
    by (simp add: two_objects_def object_id_def match_digits_def char_classes)
  have two: "named_headers two_objects = [(''100'', ''Door'')] @ (''101'', ''Key'') # []"
    by (simp add: two_objects_def object_id_def match_digits_def char_classes string_eval)
  have again: "named_headers renamed_object = [(''100'', ''Door'')] @ (''100'', ''Gate'') # []"
    by (simp add: renamed_object_def object_id_def match_digits_def char_classes string_eval)
  note A = identifier_mapping [of two_objects] and B = identifier_mapping [of renamed_object]
  from A named have "dom (build_gameobjects two_objects) = set (object_ids two_objects)"
    by blast
  then have "dom (build_gameobjects two_objects) = {''100'', ''101''}"
    by (simp add: ids)
  moreover from A named have "distinct (object_ids two_objects) \<longrightarrow>
      card (dom (build_gameobjects two_objects)) = length (object_ids two_objects)"
    by blast
  then have "card (dom (build_gameobjects two_objects)) = 2"
    by (simp add: ids)
  moreover from A two have "build_gameobjects two_objects ''101'' = Some ''Key''"
    by (simp del: append_Cons append_Nil)
  moreover from B again have "build_gameobjects renamed_object ''100'' = Some ''Gate''"
    by (simp del: append_Cons append_Nil)
  ultimately show ?thesis by simp
qed

section \<open>The argument of a call\<close>

text \<open>The argument scan is a fold of \<open>arg_step\<close> over the argument window.\<close>

lemma scan_args_fold:
  "scan_args lines m a call = fold arg_step (drop a (take (m + 10) lines)) call"
proof (induction lines m a call rule: scan_args.induct)
  case (1 lines m a call)
  show ?case
  proof (cases "a < min (m + 10) (length lines)")
    case True
    then have "drop a (take (m + 10) lines) = lines ! a # drop (a + 1) (take (m + 10) lines)"
      by (simp add: Cons_nth_drop_Suc [symmetric])
    with True "1.IH" show ?thesis
      by (subst scan_args.simps) simp
  next
    case False
    then show ?thesis by (subst scan_args.simps) auto
  qed
qed

lemma scan_args_window: "scan_args lines m m call = fold arg_step (arg_window lines m) call"
  by (simp add: scan_args_fold arg_window_def drop_take)

lemma arg_step_other: "\<not> arg_field line \<Longrightarrow> arg_step line call = call"
  by (simp add: arg_step_def arg_field_def)

lemma fold_arg_step_others:
  "\<forall>x\<in>set xs. \<not> arg_field x \<Longrightarrow> fold arg_step xs call = call"
  by (induction xs arbitrary: call) (simp_all add: arg_step_other)

lemma scan_args_single:
  assumes "arg_window lines m = before @ [l] @ after"
    and "\<forall>x\<in>set (before @ after). \<not> arg_field x"
  shows "scan_args lines m m call = arg_step l call"
  using assms by (simp add: scan_args_window fold_arg_step_others)

lemma arg_arg_step:
  "arg (arg_step x c) = (case accepted x of None \<Rightarrow> arg c | Some a \<Rightarrow> Some a)"
  by (simp add: arg_step_def accepted_def new_call_def)

lemma fold_arg_step_last:
  "arg (fold arg_step xs call) =
     (if accepted_args xs = [] then arg call else Some (last (accepted_args xs)))"
proof (induction xs rule: rev_induct)
  case Nil
  show ?case by (simp add: accepted_args_def)
next
  case (snoc x xs)
  have "arg (fold arg_step (xs @ [x]) call) = arg (arg_step x (fold arg_step xs call))"
    by simp
  also have "\<dots> = (case accepted x of None \<Rightarrow> arg (fold arg_step xs call) | Some a \<Rightarrow> Some a)"
    by (rule arg_arg_step)
  also have "\<dots> = (if accepted_args (xs @ [x]) = [] then arg call
                    else Some (last (accepted_args (xs @ [x]))))"
    by (cases "accepted x") (simp_all add: snoc.IH accepted_args_def)
  finally show ?case .
qed

lemma accepted_args_append: "accepted_args (xs @ ys) = accepted_args xs @ accepted_args ys"
  by (simp add: accepted_args_def)

lemma accepted_args_none: "\<forall>x\<in>set xs. accepted x = None \<Longrightarrow> accepted_args xs = []"
  by (induction xs) (simp_all add: accepted_args_def)

lemma accepted_bool:
  "contains ''m_BoolArgument:'' l \<Longrightarrow> \<not> contains ''m_IntArgument:'' l \<Longrightarrow>
   \<not> contains ''m_FloatArgument:'' l \<Longrightarrow> \<not> contains ''m_StringArgument:'' l \<Longrightarrow>
   accepted l = Some (field_value l)"
  by (simp add: accepted_def arg_step_def)

lemma float_only:
  assumes "arg_window lines m = before @ [l] @ after"
    and "\<forall>x\<in>set (before @ after). \<not> arg_field x"
    and "contains ''m_FloatArgument:'' l" "\<not> contains ''m_IntArgument:'' l"
    and "\<not> contains ''m_StringArgument:'' l" "\<not> contains ''m_BoolArgument:'' l"
  shows "arg (scan_args lines m m call) =
           (if field_value l = ''0'' then arg call
            else Some (''float('' @ field_value l @ '')''))"
  using assms by (simp add: scan_args_single arg_step_def)

text \<open>
  Claim C3: for a call record whose only argument field in the window is the float field,
  the retained call has no argument when the value is 0 and the argument \<open>float(2.5)\<close>
  when it is 2.5.

  The argument scan does so when it runs (lemma \<open>float_only\<close>), but no call is
  retained: on a call record with the float argument 2.5 the code does not return (see C1).
\<close>

theorem parse_scene_float_diverges: "parse_scene float_scene = None"
  by (simp add: float_scene_def scene_eval)

text \<open>
  Claim C4: the int, string and bool fields are accepted at their default values too: an
  int field 0 gives \<open>int(0)\<close>, and a string or bool field at its default value gives an
  argument.

  As stated this fails for the string field: its default value is the empty string, and line
  125 accepts a string only if it is not empty.
\<close>

theorem empty_string_no_argument:
  "arg (scan_args empty_string_args 0 0 (new_call ''onOpen'')) = None"
  by (simp add: empty_string_args_def scan_args.simps arg_step_def new_call_def string_eval
        char_classes)

text \<open>
  Claim C4, amended: in the argument scan, with one argument field line \<open>l\<close> in the window,
  an int field gives \<open>int(v)\<close> for any value \<open>v\<close>, 0 too, a bool field gives its value,
  0 too, and a string field gives the quoted value if it is not empty and leaves the
  argument as it was if it is empty.
\<close>

theorem default_values:
  assumes "arg_window lines m = before @ [l] @ after"
    and "\<forall>x\<in>set (before @ after). \<not> arg_field x"
  shows "(contains ''m_IntArgument:'' l \<longrightarrow>
            arg (scan_args lines m m call) = Some (''int('' @ field_value l @ '')'')) \<and>
         (contains ''m_BoolArgument:'' l \<and> \<not> contains ''m_IntArgument:'' l \<and>
          \<not> contains ''m_FloatArgument:'' l \<and> \<not> contains ''m_StringArgument:'' l \<longrightarrow>
            arg (scan_args lines m m call) = Some (field_value l)) \<and>
         (contains ''m_StringArgument:'' l \<and> \<not> contains ''m_IntArgument:'' l \<and>
          \<not> contains ''m_FloatArgument:'' l \<longrightarrow>
            arg (scan_args lines m m call) =
              (if field_value l = [] then arg call
               else Some ([CHR 0x22] @ field_value l @ [CHR 0x22])))"
  using assms by (simp add: scan_args_single arg_step_def)

theorem default_values_witness:
  "arg (scan_args int_args 0 0 (new_call ''onOpen'')) = Some ''int(0)'' \<and>
   arg (scan_args bool_args 0 0 (new_call ''onOpen'')) = Some ''0'' \<and>
   arg (scan_args string_args 0 0 (new_call ''onOpen'')) = Some ([CHR 0x22] @ ''red'' @ [CHR 0x22]) \<and>
   arg (scan_args empty_string_args 0 0 (new_call ''onOpen'')) = None"
proof (intro conjI)
  show "arg (scan_args int_args 0 0 (new_call ''onOpen'')) = Some ''int(0)''"
    using default_values [of int_args 0 "[int_args ! 0]" "int_args ! 1" "[int_args ! 2]"
        "new_call ''onOpen''"]
    by (simp add: int_args_def arg_eval)
  show "arg (scan_args bool_args 0 0 (new_call ''onOpen'')) = Some ''0''"
    using default_values [of bool_args 0 "[bool_args ! 0]" "bool_args ! 1" "[bool_args ! 2]"
        "new_call ''onOpen''"]
    by (simp add: bool_args_def arg_eval)
  show "arg (scan_args string_args 0 0 (new_call ''onOpen'')) = Some ([CHR 0x22] @ ''red'' @ [CHR 0x22])"
    using default_values [of string_args 0 "[string_args ! 0]" "string_args ! 1"
        "[string_args ! 2]" "new_call ''onOpen''"]
    by (simp add: string_args_def arg_eval)
  show "arg (scan_args empty_string_args 0 0 (new_call ''onOpen'')) = None"
    using default_values [of empty_string_args 0 "[empty_string_args ! 0]"
        "empty_string_args ! 1" "[empty_string_args ! 2]" "new_call ''onOpen''"]
    by (simp add: empty_string_args_def arg_eval new_call_def)
qed

text \<open>
  Claim C10: with more than one argument field line in the window of a call, the argument
  recorded is that of the last accepted line in file order, not one chosen by a priority
  among the fields; a bool field line overwrites whatever an earlier int, float or string
  line selected.
\<close>

theorem last_accepted_line_wins:
  "arg (scan_args lines m m call) =
     (if accepted_args (arg_window lines m) = [] then arg call
      else Some (last (accepted_args (arg_window lines m)))) \<and>
   (\<forall>before l after.
      arg_window lines m = before @ [l] @ after \<and>
      contains ''m_BoolArgument:'' l \<and> \<not> contains ''m_IntArgument:'' l \<and>
      \<not> contains ''m_FloatArgument:'' l \<and> \<not> contains ''m_StringArgument:'' l \<and>
      (\<forall>x\<in>set after. accepted x = None) \<longrightarrow>
      arg (scan_args lines m m call) = Some (field_value l))"
proof (intro conjI allI impI)
  show eq: "arg (scan_args lines m m call) =
     (if accepted_args (arg_window lines m) = [] then arg call
      else Some (last (accepted_args (arg_window lines m))))"
    by (simp only: scan_args_window fold_arg_step_last)
  fix before l after
  assume h: "arg_window lines m = before @ [l] @ after \<and>
      contains ''m_BoolArgument:'' l \<and> \<not> contains ''m_IntArgument:'' l \<and>
      \<not> contains ''m_FloatArgument:'' l \<and> \<not> contains ''m_StringArgument:'' l \<and>
      (\<forall>x\<in>set after. accepted x = None)"
  then have "accepted_args (arg_window lines m) = accepted_args before @ [field_value l]"
    by (simp add: accepted_args_append accepted_args_none)
       (simp add: accepted_args_def accepted_bool)
  then show "arg (scan_args lines m m call) = Some (field_value l)"
    by (simp add: eq)
qed

theorem last_accepted_line_wins_witness:
  "accepted_args (arg_window all_args 0) =
     [''int(5)'', ''float(2.5)'', [CHR 0x22] @ ''red'' @ [CHR 0x22], ''1''] \<and>
   arg (scan_args all_args 0 0 (new_call ''onOpen'')) = Some ''1''"
proof
  show acc: "accepted_args (arg_window all_args 0) =
     [''int(5)'', ''float(2.5)'', [CHR 0x22] @ ''red'' @ [CHR 0x22], ''1'']"
    by (simp add: all_args_def accepted_args_def accepted_def arg_step_def new_call_def arg_eval)
  have "arg_window all_args 0 = take 6 all_args @ [all_args ! 6] @ [all_args ! 7]"
    by (simp add: all_args_def arg_window_def)
  moreover have "accepted (all_args ! 7) = None"
    by (simp add: all_args_def accepted_def arg_step_def new_call_def arg_eval)
  moreover have "field_value (all_args ! 6) = ''1''"
    by (simp add: all_args_def arg_eval)
  moreover have "contains ''m_BoolArgument:'' (all_args ! 6) \<and>
      \<not> contains ''m_IntArgument:'' (all_args ! 6) \<and>
      \<not> contains ''m_FloatArgument:'' (all_args ! 6) \<and>
      \<not> contains ''m_StringArgument:'' (all_args ! 6)"
    by (simp add: all_args_def)
  ultimately show "arg (scan_args all_args 0 0 (new_call ''onOpen'')) = Some ''1''"
    using last_accepted_line_wins [of all_args 0 "new_call ''onOpen''"]
    by (metis empty_iff empty_set set_ConsD)
qed

section \<open>What the record of a block depends on\<close>

text \<open>The scan of a block reads the input from the header on, by offsets from the header.\<close>

lemma nth_shift: "(pre @ xs) ! (length pre + j) = xs ! j"
  by (simp add: nth_append)

lemma calls_at_shift: "calls_at (pre @ xs) (length pre + j) = calls_at xs j"
  by (simp add: calls_at_def nth_append)

lemma calls_at_take: "j + 4 \<le> n \<Longrightarrow> calls_at (take n xs) j = calls_at xs j"
  by (auto simp: calls_at_def)

lemma find_gameobject_shift:
  "find_gameobject (pre @ xs) gos (length pre + i) (length pre + j) cd =
   find_gameobject xs gos i j cd"
proof (induction xs gos i j cd rule: find_gameobject.induct)
  case (1 xs gos i j cd)
  have b: "length pre + j < min (length pre + i + 20) (length (pre @ xs)) \<longleftrightarrow>
           j < min (i + 20) (length xs)"
    by auto
  show ?case
  proof (cases "j < min (i + 20) (length xs)")
    case True
    with b "1.IH" show ?thesis
      by (subst find_gameobject.simps [of "pre @ xs"], subst find_gameobject.simps [of xs gos i j cd])
         (simp add: nth_shift add.assoc)
  next
    case False
    with b show ?thesis
      by (subst find_gameobject.simps [of "pre @ xs"], subst find_gameobject.simps [of xs gos i j cd]) auto
  qed
qed

lemma find_type_shift:
  "find_type (pre @ xs) (length pre + i) (length pre + j) = find_type xs i j"
proof (induction xs i j rule: find_type.induct)
  case (1 xs i j)
  have b: "length pre + j < min (length pre + i + 50) (length (pre @ xs)) \<longleftrightarrow>
           j < min (i + 50) (length xs)"
    by auto
  show ?case
  proof (cases "j < min (i + 50) (length xs)")
    case True
    with b "1.IH" show ?thesis
      by (subst find_type.simps [of "pre @ xs"], subst find_type.simps [of xs i j])
         (simp add: nth_shift add.assoc Let_def)
  next
    case False
    with b show ?thesis
      by (subst find_type.simps [of "pre @ xs"], subst find_type.simps [of xs i j]) auto
  qed
qed

lemma find_events_shift:
  "find_events (pre @ xs) gos (length pre + i) (length pre + j) cd =
   find_events xs gos i j cd"
proof (induction xs gos i j cd rule: find_events.induct)
  case (1 xs gos i j cd)
  show ?case
  proof (cases "j < length xs")
    case True
    with "1.IH" show ?thesis
      by (subst find_events.simps [of "pre @ xs"], subst find_events.simps [of xs gos i j cd])
         (simp add: nth_shift add.assoc event_calls_eq calls_at_shift)
  next
    case False
    then show ?thesis
      by (subst find_events.simps [of "pre @ xs"], subst find_events.simps [of xs gos i j cd]) simp
  qed
qed

lemma parse_component_shift:
  "parse_component (pre @ xs) gos (length pre) cid = parse_component xs gos 0 cid"
  using find_events_shift [of pre xs gos 0 0] find_type_shift [of pre xs 0 0]
    find_gameobject_shift [of pre xs gos 0 0]
  by (simp add: parse_component_def)

lemma parse_component_drop:
  "i \<le> length lines \<Longrightarrow>
   parse_component lines gos i cid = parse_component (drop i lines) gos 0 cid"
  using parse_component_shift [of "take i lines" "drop i lines" gos cid] by simp

text \<open>
  The owner is searched in 20 lines and the class name in 50 lines from the header; the
  events are searched up to the end of the block, and the test for a list of calls reads
  three lines further.
\<close>

lemma find_gameobject_take:
  "20 \<le> n \<Longrightarrow> find_gameobject (take n xs) gos 0 j cd = find_gameobject xs gos 0 j cd"
proof (induction xs gos "0::nat" j cd rule: find_gameobject.induct)
  case (1 xs gos j cd)
  show ?case
  proof (cases "j < min 20 (length xs)")
    case True
    with "1.prems" "1.hyps" show ?thesis
      by (subst find_gameobject.simps [of "take n xs"],
          subst find_gameobject.simps [of xs gos 0 j cd]) simp
  next
    case False
    with "1.prems" show ?thesis
      by (subst find_gameobject.simps [of "take n xs"],
          subst find_gameobject.simps [of xs gos 0 j cd]) auto
  qed
qed

lemma find_type_take:
  "50 \<le> n \<Longrightarrow> find_type (take n xs) 0 j = find_type xs 0 j"
proof (induction xs "0::nat" j rule: find_type.induct)
  case (1 xs j)
  show ?case
  proof (cases "j < min 50 (length xs)")
    case True
    with "1.prems" "1.hyps" show ?thesis
      by (subst find_type.simps [of "take n xs"], subst find_type.simps [of xs 0 j])
         (simp add: Let_def)
  next
    case False
    with "1.prems" show ?thesis
      by (subst find_type.simps [of "take n xs"], subst find_type.simps [of xs 0 j]) auto
  qed
qed

lemma find_events_take:
  assumes "j \<le> e" "e + 3 \<le> n"
    and "e = length xs \<or> (e < length xs \<and> i < e \<and> startswith (xs ! e) ''---'')"
  shows "find_events (take n xs) gos i j cd = find_events xs gos i j cd"
  using assms
proof (induction xs gos i j cd rule: find_events.induct)
  case (1 xs gos i j cd)
  show ?case
  proof (cases "j < length xs")
    case False
    then show ?thesis
      by (subst find_events.simps [of "take n xs"], subst find_events.simps [of xs gos i j cd])
         simp
  next
    case inside: True
    with "1.prems" have jn: "j < n" by simp
    show ?thesis
    proof (cases "i < j \<and> startswith (xs ! j) ''---''")
      case True
      with inside jn show ?thesis
        by (subst find_events.simps [of "take n xs"],
            subst find_events.simps [of xs gos i j cd]) simp
    next
      case False
      then have nb: "(i < j \<and> startswith (xs ! j) ''---'') = False" by simp
      from False "1.prems" inside have "j \<noteq> e" by auto
      with "1.prems" have je: "j + 1 \<le> e" by simp
      with "1.prems" have c: "calls_at (take n xs) j = calls_at xs j"
        by (simp add: calls_at_take)
      have L: "find_events (take n xs) gos i j cd =
               (if calls_at xs j then None else find_events (take n xs) gos i (j + 1) cd)"
        using inside jn by (subst find_events.simps) (simp add: event_calls_eq c nb)
      have R: "find_events xs gos i j cd =
               (if calls_at xs j then None else find_events xs gos i (j + 1) cd)"
        using inside by (subst find_events.simps) (simp add: event_calls_eq nb)
      show ?thesis
      proof (cases "calls_at xs j")
        case True
        then show ?thesis by (simp only: L R if_True)
      next
        case no: False
        then have "event_calls xs gos j cd = Some cd" by (simp add: event_calls_eq)
        from "1.IH" [OF inside False this je "1.prems"(2,3)]
        have "find_events (take n xs) gos i (j + 1) cd = find_events xs gos i (j + 1) cd" .
        with no show ?thesis by (simp only: L R if_False)
      qed
    qed
  qed
qed

lemma parse_component_take:
  assumes "50 \<le> n" "e + 3 \<le> n" "block_end xs 0 e"
  shows "parse_component (take n xs) gos 0 cid = parse_component xs gos 0 cid"
proof -
  from assms(3) have "e = length xs \<or> (e < length xs \<and> 0 < e \<and> startswith (xs ! e) ''---'')"
    by (auto simp: block_end_def)
  from find_events_take [OF _ assms(2) this, of 0] assms(1) show ?thesis
    by (simp add: parse_component_def find_gameobject_take find_type_take)
qed

lemma block_end_drop:
  "block_end lines i (i + d) \<Longrightarrow> block_end (drop i lines) 0 d"
  by (auto simp: block_end_def add.commute)

lemma block_end_transfer:
  assumes eq: "take n xs = take n ys" and d: "d < n" and b: "block_end xs 0 d"
  shows "block_end ys 0 d"
proof -
  from eq have len: "min n (length xs) = min n (length ys)"
    by (metis length_take min.commute)
  from b have "0 < d" by (simp add: block_end_def)
  from b consider "d = length xs" | "d < length xs" "startswith (xs ! d) ''---''"
    by (auto simp: block_end_def)
  then show ?thesis
  proof cases
    case 1
    with len d have "d = length ys" by (simp add: min_def split: if_splits)
    with \<open>0 < d\<close> show ?thesis by (simp add: block_end_def)
  next
    case 2
    with len d have dy: "d < length ys" by (simp add: min_def split: if_splits)
    from d have "xs ! d = take n xs ! d" by simp
    also have "\<dots> = ys ! d" using d by (simp add: eq)
    finally show ?thesis using 2 dy \<open>0 < d\<close> by (simp add: block_end_def)
  qed
qed

text \<open>
  Claim C9: the record extracted for a behaviour block (owner, class name, events) depends
  only on the lines from the header of the block to the next \<open>---\<close> line or the end of
  the input: two inputs that agree there give the same record.

  As stated this fails. The owner and class name windows of 20 and 50 lines are not cut at
  the \<open>---\<close> line, so the owner can come from the next block; and the owner's name comes
  from the identifier mapping, which is built from the whole input.
\<close>

theorem block_record_crosses_marker:
  "block_region crossing_a 0 = block_region crossing_b 0 \<and>
   parse_component crossing_a (build_gameobjects crossing_a) 0 ''200'' \<noteq>
   parse_component crossing_b (build_gameobjects crossing_b) 0 ''200'' \<and>
   block_region door_block 2 = block_region gate_block 2 \<and>
   parse_component door_block (build_gameobjects door_block) 2 ''200'' \<noteq>
   parse_component gate_block (build_gameobjects gate_block) 2 ''200''"
proof (intro conjI)
  show "block_region crossing_a 0 = block_region crossing_b 0"
    by (simp add: block_region_def crossing_a_def crossing_b_def)
  show "block_region door_block 2 = block_region gate_block 2"
    by (simp add: block_region_def door_block_def gate_block_def)
  have "parse_component crossing_a (build_gameobjects crossing_a) 0 ''200'' =
        Some \<lparr>comp_id = ''200'', events = [], gameobject = Some ''Unknown-7'', comp_type = None\<rparr>"
    by (simp add: crossing_a_def block_eval)
  moreover have "parse_component crossing_b (build_gameobjects crossing_b) 0 ''200'' =
        Some \<lparr>comp_id = ''200'', events = [], gameobject = Some ''Unknown-8'', comp_type = None\<rparr>"
    by (simp add: crossing_b_def block_eval)
  ultimately show "parse_component crossing_a (build_gameobjects crossing_a) 0 ''200'' \<noteq>
   parse_component crossing_b (build_gameobjects crossing_b) 0 ''200''"
    by simp
  have "parse_component door_block (build_gameobjects door_block) 2 ''200'' =
        Some \<lparr>comp_id = ''200'', events = [], gameobject = Some ''Door'', comp_type = None\<rparr>"
    by (simp add: door_block_def block_eval)
  moreover have "parse_component gate_block (build_gameobjects gate_block) 2 ''200'' =
        Some \<lparr>comp_id = ''200'', events = [], gameobject = Some ''Gate'', comp_type = None\<rparr>"
    by (simp add: gate_block_def block_eval)
  ultimately show "parse_component door_block (build_gameobjects door_block) 2 ''200'' \<noteq>
   parse_component gate_block (build_gameobjects gate_block) 2 ''200''"
    by simp
qed

text \<open>
  Claim C9, amended: the record depends only on the identifier mapping and on the lines
  from the header of the block up to the later of 50 lines from the header and two lines
  past the end \<open>e\<close> of the block. Here the block starts at \<open>i1\<close> in one input and at \<open>i2\<close>
  in the other, \<open>e\<close> is \<open>i1 + d\<close>, and the inputs agree on \<open>n\<close> lines from the header.
\<close>

theorem block_record_stretch:
  assumes "block_end l1 i1 (i1 + d)" and "i2 \<le> length l2"
    and "50 \<le> n" and "d + 3 \<le> n"
    and "take n (drop i1 l1) = take n (drop i2 l2)"
  shows "parse_component l1 gos i1 cid = parse_component l2 gos i2 cid"
proof -
  from assms(1) have i1: "i1 \<le> length l1" by (auto simp: block_end_def)
  from assms(1) have b1: "block_end (drop i1 l1) 0 d" by (rule block_end_drop)
  from assms(4) have "d < n" by simp
  with assms(5) have b2: "block_end (drop i2 l2) 0 d"
    using b1 by (rule block_end_transfer)
  have "parse_component l1 gos i1 cid = parse_component (drop i1 l1) gos 0 cid"
    using i1 by (rule parse_component_drop)
  also have "\<dots> = parse_component (take n (drop i1 l1)) gos 0 cid"
    using assms(3,4) b1 by (rule parse_component_take [symmetric])
  also have "\<dots> = parse_component (take n (drop i2 l2)) gos 0 cid"
    by (simp only: assms(5))
  also have "\<dots> = parse_component (drop i2 l2) gos 0 cid"
    using assms(3,4) b2 by (rule parse_component_take)
  also have "\<dots> = parse_component l2 gos i2 cid"
    using assms(2) by (rule parse_component_drop [symmetric])
  finally show ?thesis .
qed

theorem block_record_stretch_witness:
  "parse_component stretch_a Map.empty 1 ''200'' = parse_component stretch_b Map.empty 2 ''200''"
proof -
  have len: "length long_block = 51" by (simp add: long_block_def)
  have "stretch_a ! 49 = long_block ! 48"
    by (simp add: stretch_a_def nth_append len)
  also have "\<dots> = ''--- !u!114 &300\<newline>''"
    by (simp add: long_block_def nth_append)
  finally have be: "block_end stretch_a 1 (1 + 48)"
    by (simp add: block_end_def stretch_a_def len)
  have le: "2 \<le> length stretch_b" by (simp add: stretch_b_def)
  have tk: "take 51 (drop 1 stretch_a) = take 51 (drop 2 stretch_b)"
    by (simp add: stretch_a_def stretch_b_def len)
  from block_record_stretch [OF be le _ _ tk] show ?thesis by simp
qed

end
